theory Spec2Isabelle
  imports Main
begin

section \<open>The document tree the tool mutates\<close>

text \<open>
  Modelled from the spec: the host's document tree and its standard range operations
  (section 6, "standard document-range operations assumed present in the host
  environment") are not part of the repository. A node is a text node or an element with
  its tag name (as \<open>tagName\<close> reports it, upper case for HTML), its attributes in order
  and its children. The document is the child list of the editable root.
\<close>

datatype node = Text string | Elem string "(string \<times> string) list" "node list"

text \<open>
  A boundary point is a container and an offset. The container is addressed by the child
  indices leading to it from the root (\<open>[]\<close> is the root itself); the offset counts
  characters in a text node and children in an element.
\<close>

type_synonym path = "nat list"
type_synonym bp = "path \<times> nat"
type_synonym range = "bp \<times> bp"

fun textContent :: "node \<Rightarrow> string" where
  "textContent (Text t) = t"
| "textContent (Elem tg as ch) = concat (map textContent ch)"

definition forest_text :: "node list \<Rightarrow> string" where
  "forest_text ns = concat (map textContent ns)"

fun node_at :: "node list \<Rightarrow> path \<Rightarrow> node option" where
  "node_at ns [] = None"
| "node_at ns [i] = (if i < length ns then Some (ns ! i) else None)"
| "node_at ns (i # p) =
     (if i < length ns
      then (case ns ! i of Text t \<Rightarrow> None | Elem tg as ch \<Rightarrow> node_at ch p)
      else None)"

fun children_at :: "node list \<Rightarrow> path \<Rightarrow> node list option" where
  "children_at ns [] = Some ns"
| "children_at ns (i # p) =
     (if i < length ns
      then (case ns ! i of Text t \<Rightarrow> None | Elem tg as ch \<Rightarrow> children_at ch p)
      else None)"

fun valid_bp :: "node list \<Rightarrow> path \<Rightarrow> nat \<Rightarrow> bool" where
  "valid_bp ns [] k = (k \<le> length ns)"
| "valid_bp ns (i # p) k =
     (i < length ns \<and>
      (case ns ! i of
         Text t \<Rightarrow> p = [] \<and> k \<le> length t
       | Elem tg as ch \<Rightarrow> valid_bp ch p k))"

text \<open>Tree order of two boundary points: the first is not after the second.\<close>

fun bp_le :: "path \<Rightarrow> nat \<Rightarrow> path \<Rightarrow> nat \<Rightarrow> bool" where
  "bp_le [] a [] b = (a \<le> b)"
| "bp_le [] a (j # q) b = (a \<le> j)"
| "bp_le (i # p) a [] b = (i < b)"
| "bp_le (i # p) a (j # q) b = (i < j \<or> (i = j \<and> bp_le p a q b))"

definition valid_range :: "node list \<Rightarrow> range \<Rightarrow> bool" where
  "valid_range ns r =
     (case r of ((sp, sk), (ep, ek)) \<Rightarrow>
        valid_bp ns sp sk \<and> valid_bp ns ep ek \<and> bp_le sp sk ep ek)"

text \<open>
  Cutting the tree at a boundary point: everything before the point and everything after
  it. The nodes on the way down to the point appear on both sides, which is what the
  range algorithms do to a partially contained node: the original keeps one side, a clone
  receives the other.
\<close>

fun cut :: "node list \<Rightarrow> path \<Rightarrow> nat \<Rightarrow> node list \<times> node list" where
  "cut ns [] k = (take k ns, drop k ns)"
| "cut ns (i # p) k =
     (if i < length ns
      then (case ns ! i of
              Text t \<Rightarrow> (take i ns @ [Text (take k t)], Text (drop k t) # drop (Suc i) ns)
            | Elem tg as ch \<Rightarrow>
                (case cut ch p k of
                   (l, r) \<Rightarrow> (take i ns @ [Elem tg as l], Elem tg as r # drop (Suc i) ns)))
      else (ns, []))"

definition cut_node :: "node \<Rightarrow> path \<Rightarrow> nat \<Rightarrow> node \<times> node" where
  "cut_node n p k =
     (case n of
        Text t \<Rightarrow> (Text (take k t), Text (drop k t))
      | Elem tg as ch \<Rightarrow> (case cut ch p k of (l, r) \<Rightarrow> (Elem tg as l, Elem tg as r)))"

definition text_before :: "node list \<Rightarrow> bp \<Rightarrow> string" where
  "text_before ns b = forest_text (fst (cut ns (fst b) (snd b)))"

definition text_after :: "node list \<Rightarrow> bp \<Rightarrow> string" where
  "text_after ns b = forest_text (snd (cut ns (fst b) (snd b)))"

definition range_text :: "node list \<Rightarrow> range \<Rightarrow> string" where
  "range_text ns r = drop (length (text_before ns (fst r))) (text_before ns (snd r))"


section \<open>Range operations of the host\<close>

text \<open>
  Modelled from the spec: \<open>Range.extractContents\<close> of the DOM standard, on a range whose
  boundary points lie in the tree, start not after end. The recursion goes down while both
  boundary points are under the same child; where they part, the children strictly between
  are moved to the fragment, a partially contained child is split (the original keeps the
  part outside the range, a clone with the part inside goes to the fragment). The result is
  the tree after the extraction, the fragment's children, and the point at which the
  range is collapsed afterwards.
\<close>

fun extract_rec :: "node list \<Rightarrow> path \<Rightarrow> nat \<Rightarrow> path \<Rightarrow> nat \<Rightarrow> node list \<times> node list \<times> bp" where
  "extract_rec ns [] sk [] ek = (take sk ns @ drop ek ns, take (ek - sk) (drop sk ns), ([], sk))"
| "extract_rec ns (i # p) sk [] ek =
     (if i < length ns
      then (case cut_node (ns ! i) p sk of
              (l, r) \<Rightarrow> (take i ns @ [l] @ drop ek ns,
                         r # take (ek - Suc i) (drop (Suc i) ns),
                         ([], Suc i)))
      else (ns, [], ([], sk)))"
| "extract_rec ns [] sk (j # q) ek =
     (if j < length ns
      then (case cut_node (ns ! j) q ek of
              (l, r) \<Rightarrow> (take sk ns @ [r] @ drop (Suc j) ns,
                         take (j - sk) (drop sk ns) @ [l],
                         ([], sk)))
      else (ns, [], ([], sk)))"
| "extract_rec ns (i # p) sk (j # q) ek =
     (if i < length ns \<and> j < length ns
      then (if i = j
            then (case ns ! i of
                    Text t \<Rightarrow> (ns[i := Text (take sk t @ drop ek t)],
                               [Text (take (ek - sk) (drop sk t))],
                               ([i], sk))
                  | Elem tg as ch \<Rightarrow>
                      (case extract_rec ch p sk q ek of
                         (ch', frag, (np, nk)) \<Rightarrow> (ns[i := Elem tg as ch'], frag, (i # np, nk))))
            else (case cut_node (ns ! i) p sk of
                    (l1, r1) \<Rightarrow>
                      (case cut_node (ns ! j) q ek of
                         (l2, r2) \<Rightarrow> (take i ns @ [l1, r2] @ drop (Suc j) ns,
                                      r1 # take (j - Suc i) (drop (Suc i) ns) @ [l2],
                                      ([], Suc i)))))
      else (ns, [], (i # p, sk)))"

text \<open>
  A collapsed range extracts nothing and leaves the tree as it is. In every case the range
  is collapsed afterwards; the third component is the point at which it is.
\<close>

definition extractContents :: "node list \<Rightarrow> range \<Rightarrow> node list \<times> node list \<times> bp" where
  "extractContents ns r =
     (case r of ((sp, sk), (ep, ek)) \<Rightarrow>
        if (sp, sk) = (ep, ek) then (ns, [], (sp, sk))
        else extract_rec ns sp sk ep ek)"

text \<open>
  Modelled from the spec: \<open>Range.insertNode\<close> of the DOM standard, inserting the nodes
  \<open>xs\<close> (one element, or the children of a fragment) at the start of a range. The tool
  only inserts into a range it has just extracted from, so the range is collapsed and is
  given by its one boundary point. A text
  container is split at the offset, also at its ends, and the nodes go between the halves;
  in an element they go before the child at the offset. The result is the new tree and the
  parent and index at which the first node was inserted.
\<close>

fun insert_at :: "node list \<Rightarrow> path \<Rightarrow> nat \<Rightarrow> node list \<Rightarrow> node list \<times> path \<times> nat" where
  "insert_at ns [] k xs = (take k ns @ xs @ drop k ns, [], k)"
| "insert_at ns (i # p) k xs =
     (if i < length ns
      then (case ns ! i of
              Text t \<Rightarrow> (take i ns @ [Text (take k t)] @ xs @ [Text (drop k t)] @ drop (Suc i) ns,
                         [], Suc i)
            | Elem tg as ch \<Rightarrow>
                (case insert_at ch p k xs of
                   (ch', pp, idx) \<Rightarrow> (ns[i := Elem tg as ch'], i # pp, idx)))
      else (ns, [], 0))"

text \<open>
  The range after the insertion: its start stays, and the end of the collapsed range is
  set behind the inserted nodes. The third component is the path of the first inserted
  node.
\<close>

definition insertNode :: "node list \<Rightarrow> bp \<Rightarrow> node list \<Rightarrow> node list \<times> range \<times> path" where
  "insertNode ns b xs =
     (case insert_at ns (fst b) (snd b) xs of
        (ns', pp, idx) \<Rightarrow> (ns', (b, (pp, idx + length xs)), pp @ [idx]))"

text \<open>
  Modelled from the spec: \<open>Node.removeChild\<close>, removing the node at a path from its
  parent, and what the removal does to the point of a collapsed live range: a point inside
  the removed node moves to the place the node had in its parent, a point in the parent
  behind the node moves one to the left, and so does a path through a later sibling.
\<close>

fun remove_at :: "node list \<Rightarrow> path \<Rightarrow> node list" where
  "remove_at ns [] = ns"
| "remove_at ns [i] = take i ns @ drop (Suc i) ns"
| "remove_at ns (i # p) =
     (if i < length ns
      then (case ns ! i of
              Text t \<Rightarrow> ns
            | Elem tg as ch \<Rightarrow> ns[i := Elem tg as (remove_at ch p)])
      else ns)"

fun bp_removed :: "path \<Rightarrow> bp \<Rightarrow> bp" where
  "bp_removed [] b = b"
| "bp_removed [i] ([], k) = ([], if i < k then k - 1 else k)"
| "bp_removed [i] (j # c, k) =
     (if j = i then ([], i) else if i < j then ((j - 1) # c, k) else (j # c, k))"
| "bp_removed (i # p) ([], k) = ([], k)"
| "bp_removed (i # p) (j # c, k) =
     (if j = i then (case bp_removed p (c, k) of (c', k') \<Rightarrow> (i # c', k')) else (j # c, k))"

definition removeChild :: "node list \<Rightarrow> bp \<Rightarrow> path \<Rightarrow> node list \<times> bp" where
  "removeChild ns b w = (remove_at ns w, bp_removed w b)"


section \<open>Class lists\<close>

datatype error = IndexSizeError | SyntaxError | InvalidCharacterError

text \<open>
  Modelled from the spec: the \<open>classList\<close> of an element is the ordered set of the
  tokens of its \<open>class\<close> attribute, split at ASCII whitespace; \<open>add\<close> appends a token
  that is not there and writes the tokens back, joined by single spaces;
  \<open>toggle\<close> with a force flag adds the token when the flag is true and removes it
  otherwise. Both raise \<open>SyntaxError\<close> for the empty token and
  \<open>InvalidCharacterError\<close> for a token with whitespace in it, before they change
  anything.
\<close>

definition is_ws :: "char \<Rightarrow> bool" where
  "is_ws c = (c = CHR '' '' \<or> c = CHR 0x09 \<or> c = CHR 0x0A \<or> c = CHR 0x0C \<or> c = CHR 0x0D)"

fun tokens_acc :: "string \<Rightarrow> string \<Rightarrow> string list" where
  "tokens_acc cur [] = (if cur = [] then [] else [cur])"
| "tokens_acc cur (c # cs) =
     (if is_ws c
      then (if cur = [] then tokens_acc [] cs else cur # tokens_acc [] cs)
      else tokens_acc (cur @ [c]) cs)"

definition token_check :: "string \<Rightarrow> error option" where
  "token_check t =
     (if t = [] then Some SyntaxError
      else if filter is_ws t \<noteq> [] then Some InvalidCharacterError
      else None)"

definition tokens :: "string \<Rightarrow> string list" where
  "tokens v = remdups (tokens_acc [] v)"

fun join_tokens :: "string list \<Rightarrow> string" where
  "join_tokens [] = []"
| "join_tokens [t] = t"
| "join_tokens (t # ts) = t @ '' '' @ join_tokens ts"

definition classList :: "(string \<times> string) list \<Rightarrow> string list" where
  "classList as = (case map_of as ''class'' of None \<Rightarrow> [] | Some v \<Rightarrow> tokens v)"

definition token_add :: "string \<Rightarrow> string list \<Rightarrow> string list" where
  "token_add t ts = (if t \<in> set ts then ts else ts @ [t])"

definition token_toggle :: "string \<Rightarrow> bool \<Rightarrow> string list \<Rightarrow> string list" where
  "token_toggle t force ts = (if force then token_add t ts else removeAll t ts)"

fun set_attr :: "string \<Rightarrow> string \<Rightarrow> (string \<times> string) list \<Rightarrow> (string \<times> string) list" where
  "set_attr n v [] = [(n, v)]"
| "set_attr n v ((m, w) # as) = (if m = n then (n, v) # as else (m, w) # set_attr n v as)"

definition classList_add :: "string \<Rightarrow> (string \<times> string) list \<Rightarrow> (string \<times> string) list" where
  "classList_add t as = set_attr ''class'' (join_tokens (token_add t (classList as))) as"

section \<open>The state the tool works on\<close>

record button =
  btype :: string
  classes :: "string list"
  innerHTML :: string

text \<open>
  The state holds the document, the window's selection and the fields of the tool
  instance. \<open>selection\<close> is \<open>None\<close> when \<open>window.getSelection()\<close> returns null, and
  otherwise the ranges of the selection object (none or one). \<open>button\<close> is \<open>None\<close> until
  \<open>render\<close> has run. \<open>iconBase\<close> and \<open>iconActive\<close> are the two class names the
  constructor copies from \<open>api.styles\<close>; \<open>toolboxIcon\<close> is the imported icon markup.
\<close>

record state =
  doc :: "node list"
  selection :: "range list option"
  button :: "button option"
  iconBase :: string
  iconActive :: string
  toolboxIcon :: string

text \<open>
  Modelled from the spec: \<open>Selection.getRangeAt\<close> of the host. An index that is not
  below the number of ranges raises \<open>IndexSizeError\<close>; the method never returns null.
\<close>

definition getRangeAt :: "range list \<Rightarrow> nat \<Rightarrow> error + range" where
  "getRangeAt rs i = (if i < length rs then Inr (rs ! i) else Inl IndexSizeError)"

text \<open>
  Modelled from the spec: \<open>api.selection.findParentTag(tagName, className)\<close>, the
  "ancestor search from current selection". The search looks at the container of each
  boundary point of the selection and at its ancestors below the root, nearest first, for
  an element with the tag name whose class list contains the class name; the end of the
  selection is asked first, then its start. Without a selection object or without a range
  the answer is null.
\<close>

fun nearest_tag :: "string \<Rightarrow> string \<Rightarrow> node list \<Rightarrow> path \<Rightarrow> path option" where
  "nearest_tag tagName className ns [] = None"
| "nearest_tag tagName className ns (i # p) =
     (if i < length ns
      then (case ns ! i of
              Text t \<Rightarrow> None
            | Elem tg as ch \<Rightarrow>
                (case nearest_tag tagName className ch p of
                   Some q \<Rightarrow> Some (i # q)
                 | None \<Rightarrow>
                     if tg = tagName \<and> className \<in> set (classList as) then Some [i] else None))
      else None)"

definition findParentTag :: "string \<Rightarrow> string \<Rightarrow> state \<Rightarrow> path option" where
  "findParentTag tagName className s =
     (case selection s of
        None \<Rightarrow> None
      | Some [] \<Rightarrow> None
      | Some (r # rs) \<Rightarrow>
          (case nearest_tag tagName className (doc s) (fst (snd r)) of
             Some w \<Rightarrow> Some w
           | None \<Rightarrow> nearest_tag tagName className (doc s) (fst (fst r))))"

text \<open>
  Modelled from the spec: \<open>api.selection.expandToTag(node)\<close>, which "extends active
  selection to cover given node": the ranges of the selection are replaced by one range
  around the contents of the element. An element that is not in the document cannot be
  selected, which leaves the selection without a range; without a selection object there
  is nothing to expand. The document is not touched.
\<close>

definition expandToTag :: "path \<Rightarrow> state \<Rightarrow> state" where
  "expandToTag element s =
     (case selection s of
        None \<Rightarrow> s
      | Some rs \<Rightarrow>
          (case node_at (doc s) element of
             Some (Elem tg as ch) \<Rightarrow> s\<lparr>selection := Some [((element, 0), (element, length ch))]\<rparr>
           | Some (Text t) \<Rightarrow> s\<lparr>selection := Some []\<rparr>
           | None \<Rightarrow> s\<lparr>selection := Some []\<rparr>))"


section \<open>The Underline tool\<close>

definition CSS :: string where
  "CSS = ''cdx-underline''"

definition tag :: string where
  "tag = ''U''"

definition constructor :: "string \<Rightarrow> string \<Rightarrow> string \<Rightarrow> node list \<Rightarrow> range list option \<Rightarrow> state" where
  "constructor inlineToolButton inlineToolButtonActive icon d sel =
     \<lparr>doc = d, selection = sel, button = None,
      iconBase = inlineToolButton, iconActive = inlineToolButtonActive, toolboxIcon = icon\<rparr>"

text \<open>
  \<open>render\<close> stores the new button in its field before it adds the class, so a class
  name that \<open>classList.add\<close> refuses leaves a button without class and icon behind: the
  error comes with the state it leaves.
\<close>

definition render :: "state \<Rightarrow> (error \<times> state) + (state \<times> button)" where
  "render s =
     (let b0 = \<lparr>btype = ''button'', classes = [], innerHTML = []\<rparr>
      in (case token_check (iconBase s) of
            Some e \<Rightarrow> Inl (e, s\<lparr>button := Some b0\<rparr>)
          | None \<Rightarrow>
              (let b = b0\<lparr>classes := token_add (iconBase s) [], innerHTML := toolboxIcon s\<rparr>
               in Inr (s\<lparr>button := Some b\<rparr>, b))))"

text \<open>
  \<open>wrap\<close>: the new element gets the class, the extracted fragment's children become its
  children, it is inserted at the start of the range, and the host is asked to expand the
  selection to it. The class added is the constant \<open>cdx-underline\<close>, a token that
  \<open>classList.add\<close> accepts.
\<close>

definition wrap :: "range \<Rightarrow> state \<Rightarrow> state" where
  "wrap rng s =
     (case extractContents (doc s) rng of
        (d1, frag, b) \<Rightarrow>
          (let u = Elem tag (classList_add CSS []) frag
           in (case insertNode d1 b [u] of
                 (d2, range2, upath) \<Rightarrow> expandToTag upath (s\<lparr>doc := d2\<rparr>))))"

text \<open>
  \<open>unwrap\<close>: the wrapper is a path. The two guards of the source are the cases of a
  missing selection object and of a range that is null; \<open>getRangeAt\<close> raises instead of
  returning null. The extracted fragment is an object and so never fails the third guard.
  \<open>parentNode?.removeChild\<close> removes the wrapper when it has a parent, that is, when it is
  in the document.
\<close>

definition unwrap :: "path \<Rightarrow> state \<Rightarrow> error + state" where
  "unwrap termWrapper s =
     (let s1 = expandToTag termWrapper s
      in (case selection s1 of
            None \<Rightarrow> Inr s1
          | Some sel \<Rightarrow>
              (case getRangeAt sel 0 of
                 Inl e \<Rightarrow> Inl e
               | Inr rng \<Rightarrow>
                   (case extractContents (doc s1) rng of
                      (d1, unwrappedContent, b1) \<Rightarrow>
                        (case (if node_at d1 termWrapper = None then (d1, b1)
                               else removeChild d1 b1 termWrapper) of
                           (d2, b2) \<Rightarrow>
                             (case insertNode d2 b2 unwrappedContent of
                                (d3, range3, ipath) \<Rightarrow>
                                  Inr (s1\<lparr>doc := d3, selection := Some [range3]\<rparr>)))))))"

definition surround :: "range option \<Rightarrow> state \<Rightarrow> error + state" where
  "surround rng s =
     (case rng of
        None \<Rightarrow> Inr s
      | Some r \<Rightarrow>
          (case findParentTag tag CSS s of
             Some termWrapper \<Rightarrow> unwrap termWrapper s
           | None \<Rightarrow> Inr (wrap r s)))"

text \<open>
  \<open>checkState\<close>: without a button the optional chaining skips the toggle; with one,
  \<open>classList.toggle\<close> may refuse the class name.
\<close>

definition checkState :: "state \<Rightarrow> error + state \<times> bool" where
  "checkState s =
     (let termTag = findParentTag tag CSS s
      in (case button s of
            None \<Rightarrow> Inr (s, termTag \<noteq> None)
          | Some b \<Rightarrow>
              (case token_check (iconActive s) of
                 Some e \<Rightarrow> Inl e
               | None \<Rightarrow>
                   Inr (s\<lparr>button := Some (b\<lparr>classes :=
                            token_toggle (iconActive s) (termTag \<noteq> None) (classes b)\<rparr>)\<rparr>,
                        termTag \<noteq> None))))"

text \<open>The sanitizer rule: for each tag, the attributes it may keep and their values.\<close>

type_synonym sanitizer_config = "(string \<times> (string \<times> string) list) list"

definition sanitize :: sanitizer_config where
  "sanitize = [(''u'', [(''class'', CSS)])]"


section \<open>Sanitizing and serializing\<close>

definition lower_char :: "char \<Rightarrow> char" where
  "lower_char c =
     (let n = (of_char c :: nat) in if 65 \<le> n \<and> n \<le> 90 then char_of (n + 32) else c)"

definition localName :: "string \<Rightarrow> string" where
  "localName tg = map lower_char tg"

text \<open>
  Modelled from the spec: the host's sanitizer applying one tool's rule. An element whose
  tag has a rule keeps exactly the attributes the rule lists with the listed value, "all
  other attributes on that tag are stripped". Elements without a rule here are the
  business of other rules and are passed through; children are sanitized in turn.
\<close>

fun clean :: "sanitizer_config \<Rightarrow> node \<Rightarrow> node" where
  "clean cfg (Text t) = Text t"
| "clean cfg (Elem tg as ch) =
     (case map_of cfg (localName tg) of
        None \<Rightarrow> Elem tg as (map (clean cfg) ch)
      | Some allowed \<Rightarrow>
          Elem tg (filter (\<lambda>a. map_of allowed (fst a) = Some (snd a)) as) (map (clean cfg) ch))"

text \<open>
  Modelled from the spec: the markup of a node as the host persists it, after the HTML
  fragment serialization: the tag in lower case, each attribute as \<open>name="value"\<close>,
  the children, the end tag; \<open>&\<close>, \<open><\<close> and \<open>>\<close> escaped in text, \<open>&\<close> and the
  double quote in attribute values.
\<close>

fun escape_text :: "string \<Rightarrow> string" where
  "escape_text [] = []"
| "escape_text (c # cs) =
     (if c = CHR ''&'' then ''&amp;''
      else if c = CHR ''<'' then ''&lt;''
      else if c = CHR ''>'' then ''&gt;''
      else [c]) @ escape_text cs"

fun escape_attr :: "string \<Rightarrow> string" where
  "escape_attr [] = []"
| "escape_attr (c # cs) =
     (if c = CHR ''&'' then ''&amp;''
      else if c = CHR 0x22 then ''&quot;''
      else [c]) @ escape_attr cs"

definition serialize_attr :: "string \<times> string \<Rightarrow> string" where
  "serialize_attr a = '' '' @ fst a @ ''='' @ [CHR 0x22] @ escape_attr (snd a) @ [CHR 0x22]"

fun serialize :: "node \<Rightarrow> string" where
  "serialize (Text t) = escape_text t"
| "serialize (Elem tg as ch) =
     ''<'' @ localName tg @ concat (map serialize_attr as) @ ''>''
     @ concat (map serialize ch)
     @ ''</'' @ localName tg @ ''>''"

section \<open>Notions used to state the results\<close>

text \<open>
  The tree in which the node at a path has been replaced by a list of nodes; with the
  node's own children for the list, this is the tree with that node unwrapped.
\<close>

fun replace_at :: "node list \<Rightarrow> path \<Rightarrow> node list \<Rightarrow> node list" where
  "replace_at ns [] xs = ns"
| "replace_at ns [i] xs = (if i < length ns then take i ns @ xs @ drop (Suc i) ns else ns)"
| "replace_at ns (i # p) xs =
     (if i < length ns
      then (case ns ! i of
              Text t \<Rightarrow> ns
            | Elem tg as ch \<Rightarrow> ns[i := Elem tg as (replace_at ch p xs)])
      else ns)"

text \<open>
  The path at which \<open>wrap\<close> inserts its new element, and the nodes it extracts from the
  range, read off the same calls \<open>wrap\<close> makes.
\<close>

definition wrapper_path :: "range \<Rightarrow> state \<Rightarrow> path" where
  "wrapper_path r s =
     (case extractContents (doc s) r of
        (d1, frag, b) \<Rightarrow> snd (snd (insertNode d1 b [Elem tag (classList_add CSS []) frag])))"

definition extracted :: "range \<Rightarrow> state \<Rightarrow> node list" where
  "extracted r s = fst (snd (extractContents (doc s) r))"

text \<open>
  The scenario of the spec: the word \<open>init\<close> selected in the text
  \<open>npm init command\<close>, in a tool that has not rendered its button yet; and the same
  text with the word underlined and a selection inside it.
\<close>

definition npm_range :: range where
  "npm_range = (([0], 4), ([0], 8))"

definition npm_state :: state where
  "npm_state = constructor ''ce-inline-tool'' ''ce-inline-tool--active'' ''<svg/>''
     [Text ''npm init command''] (Some [npm_range])"

definition npm_wrapped :: state where
  "npm_wrapped = constructor ''ce-inline-tool'' ''ce-inline-tool--active'' ''<svg/>''
     [Text ''npm '', Elem ''U'' [(''class'', ''cdx-underline'')] [Text ''init''], Text '' command'']
     (Some [(([1, 0], 1), ([1, 0], 3))])"

text \<open>What the proofs below establish about each tree operation, as predicates on its result.\<close>

definition extract_ok :: "node list \<Rightarrow> path \<Rightarrow> nat \<Rightarrow> path \<Rightarrow> nat \<Rightarrow> node list \<times> node list \<times> bp \<Rightarrow> bool" where
  "extract_ok ns sp sk ep ek res =
     (case res of (ns', frag, (np, nk)) \<Rightarrow>
        valid_bp ns' np nk
      \<and> forest_text (fst (cut ns' np nk)) = forest_text (fst (cut ns sp sk))
      \<and> forest_text (snd (cut ns' np nk)) = forest_text (snd (cut ns ep ek))
      \<and> forest_text (fst (cut ns sp sk)) @ forest_text frag = forest_text (fst (cut ns ep ek)))"

definition insert_ok :: "node list \<Rightarrow> path \<Rightarrow> nat \<Rightarrow> node list \<Rightarrow> node list \<times> path \<times> nat \<Rightarrow> bool" where
  "insert_ok ns p k xs res =
     (case res of (ns', pp, idx) \<Rightarrow>
        valid_bp ns' pp idx
      \<and> valid_bp ns' pp (idx + length xs)
      \<and> forest_text (fst (cut ns' pp idx)) = forest_text (fst (cut ns p k))
      \<and> forest_text (fst (cut ns' pp (idx + length xs))) = forest_text (fst (cut ns p k)) @ forest_text xs
      \<and> forest_text (snd (cut ns' pp (idx + length xs))) = forest_text (snd (cut ns p k))
      \<and> (case children_at ns' pp of
           None \<Rightarrow> False
         | Some cs \<Rightarrow> take (length xs) (drop idx cs) = xs))"

definition replace_ok :: "node list \<Rightarrow> path \<Rightarrow> node list \<Rightarrow> bool" where
  "replace_ok ns w xs =
     (let ns' = replace_at ns w xs; pp = butlast w; i = last w in
        valid_bp ns' pp i
      \<and> valid_bp ns' pp (i + length xs)
      \<and> forest_text (fst (cut ns' pp i)) = forest_text (fst (cut ns pp i))
      \<and> forest_text (fst (cut ns' pp (i + length xs))) = forest_text (fst (cut ns pp i)) @ forest_text xs
      \<and> forest_text (snd (cut ns' pp (i + length xs))) = forest_text (snd (cut ns pp (Suc i)))
      \<and> (case children_at ns' pp of
           None \<Rightarrow> False
         | Some cs \<Rightarrow> take (length xs) (drop i cs) = xs))"

section \<open>Facts about the tree operations\<close>

lemma forest_text_Nil [simp]: "forest_text [] = []"
  by (simp add: forest_text_def)

lemma forest_text_Cons [simp]: "forest_text (x # xs) = textContent x @ forest_text xs"
  by (simp add: forest_text_def)

lemma forest_text_append [simp]: "forest_text (xs @ ys) = forest_text xs @ forest_text ys"
  by (simp add: forest_text_def)

lemma textContent_Elem [simp]: "textContent (Elem tg as ch) = forest_text ch"
  by (simp add: forest_text_def)

declare textContent.simps(2) [simp del]

lemma forest_text_nth:
  "i < length ns \<Longrightarrow>
   forest_text ns = forest_text (take i ns) @ textContent (ns ! i) @ forest_text (drop (Suc i) ns)"
proof -
  assume "i < length ns"
  then have "ns = take i ns @ ns ! i # drop (Suc i) ns"
    by (rule id_take_nth_drop)
  then have "forest_text ns = forest_text (take i ns @ ns ! i # drop (Suc i) ns)"
    by simp
  then show ?thesis by simp
qed

lemma forest_text_take_drop: "forest_text (take k ns) @ forest_text (drop k ns) = forest_text ns"
  by (metis append_take_drop_id forest_text_append)

lemma cut_text:
  "valid_bp ns p k \<Longrightarrow>
   forest_text (fst (cut ns p k)) @ forest_text (snd (cut ns p k)) = forest_text ns"
proof (induction ns p k rule: cut.induct)
  case (1 ns k)
  then show ?case by (simp add: forest_text_take_drop)
next
  case (2 ns i p k)
  then have i: "i < length ns" by simp
  show ?case
  proof (cases "ns ! i")
    case (Text t)
    then show ?thesis using i forest_text_nth [OF i]
      by simp
  next
    case (Elem tg as ch)
    with 2 i have "forest_text (fst (cut ch p k)) @ forest_text (snd (cut ch p k)) = forest_text ch"
      by simp
    then show ?thesis using i Elem forest_text_nth [OF i]
      by (simp add: split_def)
  qed
qed

lemma cut_Cons_node:
  "i < length ns \<Longrightarrow>
   cut ns (i # p) k =
     (take i ns @ [fst (cut_node (ns ! i) p k)], snd (cut_node (ns ! i) p k) # drop (Suc i) ns)"
  by (cases "ns ! i") (simp_all add: cut_node_def split_def)

lemma cut_node_text:
  assumes "valid_bp ns (i # p) k"
  shows "textContent (fst (cut_node (ns ! i) p k)) @ textContent (snd (cut_node (ns ! i) p k))
           = textContent (ns ! i)"
proof (cases "ns ! i")
  case (Text t)
  then show ?thesis by (simp add: cut_node_def)
next
  case (Elem tg as ch)
  with assms have "valid_bp ch p k" by simp
  then have "forest_text (fst (cut ch p k)) @ forest_text (snd (cut ch p k)) = forest_text ch"
    by (rule cut_text)
  then show ?thesis using Elem
    by (simp add: cut_node_def split_def)
qed

lemma take_mid:
  "i < k \<Longrightarrow> k \<le> length ns \<Longrightarrow>
   take k ns = take i ns @ ns ! i # take (k - Suc i) (drop (Suc i) ns)"
proof -
  assume a: "i < k" "k \<le> length ns"
  then have i: "i < length ns" by simp
  have "take k ns = take k (take i ns @ ns ! i # drop (Suc i) ns)"
    using id_take_nth_drop [OF i] by simp
  also have "\<dots> = take i ns @ ns ! i # take (k - Suc i) (drop (Suc i) ns)"
    using a i by (simp add: min_def take_Cons')
  finally show ?thesis .
qed

lemma take_mid_le:
  "i \<le> k \<Longrightarrow> take k ns = take i ns @ take (k - i) (drop i ns)"
  by (metis le_add_diff_inverse take_add)

lemma extract_rec_ok:
  "valid_bp ns sp sk \<Longrightarrow> valid_bp ns ep ek \<Longrightarrow> bp_le sp sk ep ek \<Longrightarrow>
   extract_ok ns sp sk ep ek (extract_rec ns sp sk ep ek)"
proof (induction ns sp sk ep ek rule: extract_rec.induct)
  case (1 ns sk ek)
  then have le: "sk \<le> ek" "ek \<le> length ns" by simp_all
  then show ?case
    by (auto simp add: extract_ok_def min_def take_mid_le [OF le(1), of ns])
next
  case (2 ns i p sk ek)
  then have i: "i < ek" "ek \<le> length ns" "i < length ns" by simp_all
  note t = cut_node_text [OF 2(1)]
  show ?case using i t
    by (auto simp add: extract_ok_def split_def cut_Cons_node take_mid [OF i(1,2)] min_def simp del: cut.simps(2))
next
  case (3 ns sk j q ek)
  then have j: "sk \<le> j" "j < length ns" by simp_all
  note t = cut_node_text [OF 3(2)]
  show ?case using j t
    by (auto simp add: extract_ok_def split_def cut_Cons_node take_mid_le [OF j(1), of ns] min_def simp del: cut.simps(2))
next
  case (4 ns i p sk j q ek)
  then have ij: "i < length ns" "j < length ns" by simp_all
  show ?case
  proof (cases "i = j")
    case False
    with 4 have lt: "i < j" by simp
    note t1 = cut_node_text [OF 4(2)]
    note t2 = cut_node_text [OF 4(3)]
    have tk: "take j ns = take i ns @ ns ! i # take (j - Suc i) (drop (Suc i) ns)"
      using lt ij by (simp add: take_mid)
    show ?thesis using ij lt False t1 t2
      by (auto simp add: extract_ok_def split_def cut_Cons_node tk min_def simp del: cut.simps(2))
  next
    case True
    show ?thesis
    proof (cases "ns ! i")
      case (Text t)
      with 4 True have k: "sk \<le> ek" "ek \<le> length t" "p = []" "q = []" by simp_all
      show ?thesis using ij True Text k
        by (auto simp add: extract_ok_def take_mid_le [OF k(1), of t] min_def)
    next
      case (Elem tg as ch)
      with 4 True have v: "valid_bp ch p sk" "valid_bp ch q ek" "bp_le p sk q ek" by simp_all
      have ih: "extract_ok ch p sk q ek (extract_rec ch p sk q ek)"
        using 4(1) [OF _ True Elem v] ij by simp
      obtain ch' frag np nk where r: "extract_rec ch p sk q ek = (ch', frag, (np, nk))"
        by (metis prod.exhaust)
      show ?thesis using ij True Elem ih r
        by (auto simp add: extract_ok_def split_def)
    qed
  qed
qed

lemma insert_at_ok:
  "valid_bp ns p k \<Longrightarrow> insert_ok ns p k xs (insert_at ns p k xs)"
proof (induction ns p k xs rule: insert_at.induct)
  case (1 ns k xs)
  then show ?case
    by (auto simp add: insert_ok_def min_def)
next
  case (2 ns i p k xs)
  then have i: "i < length ns" by simp
  show ?case
  proof (cases "ns ! i")
    case (Text t)
    then show ?thesis using i 2(2)
      by (auto simp add: insert_ok_def min_def)
  next
    case (Elem tg as ch)
    with 2 i have ih: "insert_ok ch p k xs (insert_at ch p k xs)" by simp
    obtain ch' pp idx where r: "insert_at ch p k xs = (ch', pp, idx)"
      by (metis prod.exhaust)
    show ?thesis using i Elem ih r
      by (auto simp add: insert_ok_def split_def split: option.splits)
  qed
qed

lemma extract_wrapper:
  "node_at ns w = Some (Elem tg as ch) \<Longrightarrow>
   extract_rec ns w 0 w (length ch) = (replace_at ns w [Elem tg as []], ch, (w, 0))"
proof (induction ns w arbitrary: rule: node_at.induct)
  case (1 ns)
  then show ?case by simp
next
  case (2 ns i)
  then show ?case
    by (auto simp add: upd_conv_take_nth_drop split: if_splits)
next
  case (3 ns i j p)
  then show ?case
    by (auto split: if_splits node.splits)
qed

lemma node_at_replace_self:
  "node_at ns w = Some x \<Longrightarrow> replace_at ns w [x] = ns"
proof (induction ns w arbitrary: rule: node_at.induct)
  case (1 ns)
  then show ?case by simp
next
  case (2 ns i)
  then show ?case
    by (auto simp add: id_take_nth_drop [symmetric] split: if_splits)
next
  case (3 ns i j p)
  then show ?case
    by (auto split: if_splits node.splits) (metis list_update_id)
qed

lemma node_at_replace:
  "node_at ns w = Some x \<Longrightarrow> node_at (replace_at ns w [y]) w = Some y"
proof (induction ns w arbitrary: rule: node_at.induct)
  case (1 ns)
  then show ?case by simp
next
  case (2 ns i)
  then show ?case
    by (auto simp add: nth_append split: if_splits)
next
  case (3 ns i j p)
  then show ?case
    by (auto split: if_splits node.splits)
qed

lemma remove_at_replace:
  "node_at ns w = Some x \<Longrightarrow> remove_at (replace_at ns w [y]) w = replace_at ns w []"
proof (induction ns w arbitrary: rule: node_at.induct)
  case (1 ns)
  then show ?case by simp
next
  case (2 ns i)
  then show ?case
    by (auto simp add: min_def split: if_splits)
next
  case (3 ns i j p)
  then show ?case
    by (auto split: if_splits node.splits)
qed

lemma bp_removed_self:
  "w \<noteq> [] \<Longrightarrow> bp_removed w (w, k) = (butlast w, last w)"
  by (induction w "(w, k)" arbitrary: rule: bp_removed.induct) auto

lemma insert_at_replace:
  "node_at ns w = Some x \<Longrightarrow>
   insert_at (replace_at ns w []) (butlast w) (last w) xs = (replace_at ns w xs, butlast w, last w)"
proof (induction ns w arbitrary: rule: node_at.induct)
  case (1 ns)
  then show ?case by simp
next
  case (2 ns i)
  then show ?case
    by (auto simp add: min_def split: if_splits)
next
  case (3 ns i j p)
  then show ?case
    by (auto split: if_splits node.splits)
qed

lemma replace_at_ok:
  "node_at ns w = Some x \<Longrightarrow> replace_ok ns w xs"
proof (induction ns w arbitrary: rule: node_at.induct)
  case (1 ns)
  then show ?case by simp
next
  case (2 ns i)
  then show ?case
    by (auto simp add: replace_ok_def min_def split: if_splits)
next
  case (3 ns i j p)
  from 3(2) have i: "i < length ns"
    by (simp split: if_splits)
  from 3(2) i obtain tg as ch where e: "ns ! i = Elem tg as ch"
    by (cases "ns ! i") simp_all
  from 3(2) i e have "node_at ch (j # p) = Some x"
    by simp
  with 3(1) i e have ih: "replace_ok ch (j # p) xs"
    by simp
  obtain cs where cs: "children_at (replace_at ch (j # p) xs) (butlast (j # p)) = Some cs"
    using ih by (auto simp add: replace_ok_def Let_def split: option.splits)
  have b: "butlast (i # j # p) = i # butlast (j # p)" "last (i # j # p) = last (j # p)"
    by simp_all
  have r: "replace_at ns (i # j # p) xs = ns[i := Elem tg as (replace_at ch (j # p) xs)]"
    using i e by simp
  show ?case
    unfolding replace_ok_def Let_def b r
    using i e ih cs
    apply (simp add: replace_ok_def Let_def split_def del: replace_at.simps)
    done
qed

lemma nearest_tag_replace:
  "nearest_tag T C (replace_at ns w xs) (butlast w) = nearest_tag T C ns (butlast w)"
proof (induction ns w xs rule: replace_at.induct)
  case (1 ns xs)
  then show ?case by simp
next
  case (2 ns i xs)
  then show ?case by simp
next
  case (3 ns i j p xs)
  show ?case
  proof (cases "i < length ns")
    case False
    then show ?thesis by simp
  next
    case True
    show ?thesis
    proof (cases "ns ! i")
      case (Text t)
      then show ?thesis using True by simp
    next
      case (Elem tg as ch)
      with 3 True
      have "nearest_tag T C (replace_at ch (j # p) xs) (butlast (j # p))
              = nearest_tag T C ch (butlast (j # p))"
        by simp
      then show ?thesis using True Elem
        by (simp del: replace_at.simps(3) add: replace_at.simps(3) [of ns i j p xs])
    qed
  qed
qed

lemma replace_at_text:
  assumes "node_at ns w = Some x" "forest_text xs = textContent x"
  shows "forest_text (replace_at ns w xs) = forest_text ns"
proof -
  let ?pp = "butlast w" and ?i = "last w"
  have split_text: "forest_text (replace_at ns w ys)
      = forest_text (fst (cut ns ?pp ?i)) @ forest_text ys @ forest_text (snd (cut ns ?pp (Suc ?i)))"
    for ys
  proof -
    have ok: "replace_ok ns w ys"
      using assms(1) by (rule replace_at_ok)
    then have v: "valid_bp (replace_at ns w ys) ?pp (?i + length ys)"
      by (simp add: replace_ok_def Let_def)
    from ok have
      a: "forest_text (fst (cut (replace_at ns w ys) ?pp (?i + length ys)))
            = forest_text (fst (cut ns ?pp ?i)) @ forest_text ys" and
      b: "forest_text (snd (cut (replace_at ns w ys) ?pp (?i + length ys)))
            = forest_text (snd (cut ns ?pp (Suc ?i)))"
      by (simp_all add: replace_ok_def Let_def)
    show ?thesis
      using cut_text [OF v] a b by simp
  qed
  have "forest_text (replace_at ns w xs) = forest_text (replace_at ns w [x])"
    using assms(2) by (simp add: split_text)
  then show ?thesis
    using assms(1) by (simp add: node_at_replace_self)
qed

lemma extractContents_wrapper:
  assumes "node_at ns w = Some (Elem tg as ch)"
  shows "extractContents ns ((w, 0), (w, length ch))
           = (replace_at ns w [Elem tg as []], ch, (w, 0))"
proof (cases "ch = []")
  case True
  then show ?thesis using assms
    by (simp add: extractContents_def node_at_replace_self)
next
  case False
  then show ?thesis using assms
    by (simp add: extractContents_def extract_wrapper)
qed

lemma node_at_nonempty: "node_at ns w = Some x \<Longrightarrow> w \<noteq> []"
  by auto

lemma unwrap_result:
  assumes sel: "selection s = Some rs"
    and w: "node_at (doc s) w = Some (Elem tg as ch)"
  shows "unwrap w s =
           Inr (s\<lparr>doc := replace_at (doc s) w ch,
                  selection := Some [((butlast w, last w), (butlast w, last w + length ch))]\<rparr>)"
proof -
  have ne: "w \<noteq> []"
    using w by (rule node_at_nonempty)
  have e: "expandToTag w s = s\<lparr>selection := Some [((w, 0), (w, length ch))]\<rparr>"
    using sel w by (simp add: expandToTag_def)
  have x: "extractContents (doc s) ((w, 0), (w, length ch))
             = (replace_at (doc s) w [Elem tg as []], ch, (w, 0))"
    using w by (rule extractContents_wrapper)
  have n: "node_at (replace_at (doc s) w [Elem tg as []]) w = Some (Elem tg as [])"
    using w by (rule node_at_replace)
  have r: "removeChild (replace_at (doc s) w [Elem tg as []]) (w, 0) w
             = (replace_at (doc s) w [], (butlast w, last w))"
    using w ne by (simp add: removeChild_def remove_at_replace bp_removed_self)
  have i: "insertNode (replace_at (doc s) w []) (butlast w, last w) ch
             = (replace_at (doc s) w ch,
                ((butlast w, last w), (butlast w, last w + length ch)),
                butlast w @ [last w])"
    using w by (simp add: insertNode_def insert_at_replace)
  show ?thesis
    by (simp add: unwrap_def Let_def e getRangeAt_def x n r i)
qed

lemma wrapper_element:
  "Elem tag (classList_add CSS []) frag = Elem ''U'' [(''class'', ''cdx-underline'')] frag"
  by (simp add: tag_def CSS_def classList_add_def classList_def token_add_def)

lemma wrapper_token: "token_check CSS = None"
  by (simp add: token_check_def CSS_def is_ws_def)

lemma wrapper_class: "''cdx-underline'' \<in> set (classList [(''class'', ''cdx-underline'')])"
  by (simp add: classList_def tokens_def is_ws_def)

lemma extractContents_ok:
  assumes "valid_range ns r"
  shows "case extractContents ns r of (d1, frag, b) \<Rightarrow>
           valid_bp d1 (fst b) (snd b)
         \<and> text_before d1 b = text_before ns (fst r)
         \<and> text_after d1 b = text_after ns (snd r)
         \<and> text_before ns (fst r) @ forest_text frag = text_before ns (snd r)"
proof -
  obtain sp sk ep ek where r: "r = ((sp, sk), (ep, ek))"
    by (metis prod.exhaust)
  with assms have v: "valid_bp ns sp sk" "valid_bp ns ep ek" "bp_le sp sk ep ek"
    by (simp_all add: valid_range_def)
  show ?thesis
  proof (cases "(sp, sk) = (ep, ek)")
    case True
    then show ?thesis using r v
      by (simp add: extractContents_def text_before_def text_after_def)
  next
    case False
    obtain d1 frag np nk where x: "extract_rec ns sp sk ep ek = (d1, frag, (np, nk))"
      by (metis prod.exhaust)
    have "extract_ok ns sp sk ep ek (d1, frag, (np, nk))"
      using extract_rec_ok [OF v] x by simp
    then show ?thesis using r False x
      by (auto simp add: extractContents_def extract_ok_def text_before_def text_after_def)
  qed
qed

lemma node_at_children:
  "children_at ns pp = Some cs \<Longrightarrow> idx < length cs \<Longrightarrow> node_at ns (pp @ [idx]) = Some (cs ! idx)"
proof (induction pp arbitrary: ns)
  case Nil
  then show ?case by simp
next
  case (Cons i pp)
  from Cons.prems(1) have i: "i < length ns"
    by (simp split: if_splits)
  from Cons.prems(1) i obtain tg as ch where e: "ns ! i = Elem tg as ch"
    by (cases "ns ! i") simp_all
  from Cons.prems(1) i e have "children_at ch pp = Some cs" by simp
  then have "node_at ch (pp @ [idx]) = Some (cs ! idx)"
    using Cons.IH Cons.prems(2) by simp
  moreover obtain j q where "pp @ [idx] = j # q"
    by (cases "pp @ [idx]") simp_all
  ultimately show ?case using i e by simp
qed

lemma nearest_tag_inside:
  "children_at ns pp = Some cs \<Longrightarrow> idx < length cs \<Longrightarrow> cs ! idx = Elem T as ch \<Longrightarrow>
   C \<in> set (classList as) \<Longrightarrow> nearest_tag T C ns (pp @ idx # rest) \<noteq> None"
proof (induction pp arbitrary: ns)
  case Nil
  then show ?case by (simp split: option.splits)
next
  case (Cons i pp)
  from Cons.prems(1) have i: "i < length ns"
    by (simp split: if_splits)
  from Cons.prems(1) i obtain tg as' ch' where e: "ns ! i = Elem tg as' ch'"
    by (cases "ns ! i") simp_all
  from Cons.prems(1) i e have "children_at ch' pp = Some cs" by simp
  then have "nearest_tag T C ch' (pp @ idx # rest) \<noteq> None"
    using Cons.IH Cons.prems(2-4) by simp
  then show ?case using i e by (auto split: option.splits)
qed

lemma nearest_tag_wrapper:
  "children_at ns pp = Some cs \<Longrightarrow> idx < length cs \<Longrightarrow> cs ! idx = Elem T as ch \<Longrightarrow>
   C \<in> set (classList as) \<Longrightarrow> nearest_tag T C ns (pp @ [idx]) = Some (pp @ [idx])"
proof (induction pp arbitrary: ns)
  case Nil
  then show ?case by simp
next
  case (Cons i pp)
  from Cons.prems(1) have i: "i < length ns"
    by (simp split: if_splits)
  from Cons.prems(1) i obtain tg as' ch' where e: "ns ! i = Elem tg as' ch'"
    by (cases "ns ! i") simp_all
  from Cons.prems(1) i e have "children_at ch' pp = Some cs" by simp
  then have "nearest_tag T C ch' (pp @ [idx]) = Some (pp @ [idx])"
    using Cons.IH Cons.prems(2-4) by simp
  then show ?case using i e by simp
qed

lemma nearest_tag_extract:
  "nearest_tag T C ns sp = None \<Longrightarrow>
   nearest_tag T C (fst (extract_rec ns sp sk ep ek)) (fst (snd (snd (extract_rec ns sp sk ep ek)))) = None"
proof (induction ns sp sk ep ek rule: extract_rec.induct)
  case (1 ns sk ek)
  then show ?case by simp
next
  case (2 ns i p sk ek)
  then show ?case by (simp add: split_def)
next
  case (3 ns sk j q ek)
  then show ?case by (simp add: split_def)
next
  case (4 ns i p sk j q ek)
  show ?case
  proof (cases "i < length ns \<and> j < length ns")
    case False
    then have "extract_rec ns (i # p) sk (j # q) ek = (ns, [], (i # p, sk))"
      by (subst extract_rec.simps) (rule if_not_P)
    then show ?thesis using 4(2) by (simp del: extract_rec.simps nearest_tag.simps)
  next
    case True
    show ?thesis
    proof (cases "i = j")
      case False
      then show ?thesis using True by (simp add: split_def)
    next
      case ij: True
      show ?thesis
      proof (cases "ns ! i")
        case (Text t)
        then show ?thesis using True ij by simp
      next
        case (Elem tg as ch)
        with 4(2) True have n: "nearest_tag T C ch p = None"
          "\<not> (tg = T \<and> C \<in> set (classList as))"
          by (auto split: option.splits if_splits)
        have "nearest_tag T C (fst (extract_rec ch p sk q ek))
                (fst (snd (snd (extract_rec ch p sk q ek)))) = None"
          using 4(1) [OF True ij Elem n(1)] .
        then show ?thesis using True ij Elem n(2)
          by (simp add: split_def)
      qed
    qed
  qed
qed

lemma nearest_tag_insert:
  "nearest_tag T C ns p = None \<Longrightarrow>
   nearest_tag T C (fst (insert_at ns p k xs)) (fst (snd (insert_at ns p k xs))) = None"
proof (induction ns p k xs rule: insert_at.induct)
  case (1 ns k xs)
  then show ?case by simp
next
  case (2 ns i p k xs)
  show ?case
  proof (cases "i < length ns")
    case False
    then show ?thesis by simp
  next
    case True
    show ?thesis
    proof (cases "ns ! i")
      case (Text t)
      then show ?thesis using True by simp
    next
      case (Elem tg as ch)
      with 2(2) True have n: "nearest_tag T C ch p = None"
        "\<not> (tg = T \<and> C \<in> set (classList as))"
        by (auto split: option.splits if_splits)
      have "nearest_tag T C (fst (insert_at ch p k xs)) (fst (snd (insert_at ch p k xs))) = None"
        using 2(1) [OF True Elem n(1)] .
      then show ?thesis using True Elem n(2)
        by (simp add: split_def)
    qed
  qed
qed

lemma extractContents_collapsed:
  "extractContents ns (b, b) = (ns, [], b)"
  by (cases b) (simp add: extractContents_def)

lemma extractContents_proper:
  "(sp, sk) \<noteq> (ep, ek) \<Longrightarrow>
   extractContents ns ((sp, sk), (ep, ek)) = extract_rec ns sp sk ep ek"
  by (auto simp add: extractContents_def)

lemma wrap_facts:
  assumes v: "valid_range (doc s) r"
  defines "u \<equiv> wrapper_path r s"
    and "frag \<equiv> extracted r s"
    and "d \<equiv> doc (wrap r s)"
  shows "u = butlast u @ [last u]"
    and "\<exists>cs. children_at d (butlast u) = Some cs \<and> last u < length cs
            \<and> cs ! last u = Elem ''U'' [(''class'', ''cdx-underline'')] frag"
    and "valid_bp d (butlast u) (last u)"
    and "valid_bp d (butlast u) (Suc (last u))"
    and "text_before d (butlast u, last u) = text_before (doc s) (fst r)"
    and "text_before d (butlast u, Suc (last u)) = text_before (doc s) (fst r) @ forest_text frag"
    and "text_after d (butlast u, Suc (last u)) = text_after (doc s) (snd r)"
    and "text_before (doc s) (fst r) @ forest_text frag = text_before (doc s) (snd r)"
    and "selection (wrap r s) =
           (case selection s of None \<Rightarrow> None | Some rs \<Rightarrow> Some [((u, 0), (u, length frag))])"
    and "nearest_tag T C (doc s) (fst (fst r)) = None \<Longrightarrow> nearest_tag T C d (butlast u) = None"
    and "wrap r s = (s\<lparr>doc := d, selection := selection (wrap r s)\<rparr>)"
proof -
  let ?u = "Elem ''U'' [(''class'', ''cdx-underline'')] frag"
  obtain d1 fr np nk where x: "extractContents (doc s) r = (d1, fr, (np, nk))"
    by (metis prod.exhaust)
  have fr: "fr = frag"
    using x by (simp add: frag_def extracted_def)
  have x1: "valid_bp d1 np nk"
    "text_before d1 (np, nk) = text_before (doc s) (fst r)"
    "text_after d1 (np, nk) = text_after (doc s) (snd r)"
    "text_before (doc s) (fst r) @ forest_text frag = text_before (doc s) (snd r)"
    using extractContents_ok [OF v] x fr by simp_all
  obtain d2 pp idx where i: "insert_at d1 np nk [?u] = (d2, pp, idx)"
    by (metis prod.exhaust)
  have ok: "insert_ok d1 np nk [?u] (d2, pp, idx)"
    using insert_at_ok [OF x1(1), of "[?u]"] i by simp
  have ins: "insertNode d1 (np, nk) [?u] = (d2, ((np, nk), (pp, idx + 1)), pp @ [idx])"
    using i by (simp add: insertNode_def)
  have u: "u = pp @ [idx]"
    using x ins fr by (simp add: u_def wrapper_path_def wrapper_element)
  obtain cs where cs: "children_at d2 pp = Some cs" "take 1 (drop idx cs) = [?u]"
    using ok by (auto simp add: insert_ok_def split: option.splits)
  have idx: "idx < length cs" "cs ! idx = ?u"
  proof -
    from cs(2) have ne: "drop idx cs \<noteq> []" by auto
    then show "idx < length cs" by simp
    then have "drop idx cs = cs ! idx # drop (Suc idx) cs"
      by (simp add: Cons_nth_drop_Suc)
    with cs(2) show "cs ! idx = ?u" by simp
  qed
  have n: "node_at d2 (pp @ [idx]) = Some ?u"
    using node_at_children [OF cs(1) idx(1)] idx(2) by simp
  have w: "wrap r s = expandToTag (pp @ [idx]) (s\<lparr>doc := d2\<rparr>)"
    using x ins fr by (simp add: wrap_def Let_def wrapper_element)
  have d: "d = d2"
    using w by (simp add: d_def expandToTag_def split: option.splits node.splits)
  show "u = butlast u @ [last u]"
    using u by simp
  show "\<exists>cs. children_at d (butlast u) = Some cs \<and> last u < length cs
            \<and> cs ! last u = Elem ''U'' [(''class'', ''cdx-underline'')] frag"
    using cs(1) idx u d by simp
  show "valid_bp d (butlast u) (last u)" "valid_bp d (butlast u) (Suc (last u))"
    using ok u d by (simp_all add: insert_ok_def)
  show "text_before d (butlast u, last u) = text_before (doc s) (fst r)"
    using ok u d x1(2) by (simp add: insert_ok_def text_before_def)
  show "text_before d (butlast u, Suc (last u)) = text_before (doc s) (fst r) @ forest_text frag"
    using ok u d x1(2) by (simp add: insert_ok_def text_before_def)
  show "text_after d (butlast u, Suc (last u)) = text_after (doc s) (snd r)"
    using ok u d x1(3) by (simp add: insert_ok_def text_after_def)
  show "text_before (doc s) (fst r) @ forest_text frag = text_before (doc s) (snd r)"
    by (rule x1(4))
  show sel: "selection (wrap r s) =
           (case selection s of None \<Rightarrow> None | Some rs \<Rightarrow> Some [((u, 0), (u, length frag))])"
    using w n u by (simp add: expandToTag_def split: option.splits)
  show "wrap r s = (s\<lparr>doc := d, selection := selection (wrap r s)\<rparr>)"
    using w n d by (simp add: expandToTag_def split: option.splits)
  show "nearest_tag T C d (butlast u) = None" if a: "nearest_tag T C (doc s) (fst (fst r)) = None"
  proof -
    obtain sp sk ep ek where r: "r = ((sp, sk), (ep, ek))"
      by (metis prod.exhaust)
    have "nearest_tag T C d1 np = None"
    proof (cases "(sp, sk) = (ep, ek)")
      case True
      then show ?thesis using x r a by (simp add: extractContents_collapsed)
    next
      case False
      then have "d1 = fst (extract_rec (doc s) sp sk ep ek)"
        "np = fst (snd (snd (extract_rec (doc s) sp sk ep ek)))"
        using x r by (simp_all add: extractContents_proper)
      then show ?thesis using nearest_tag_extract [of T C "doc s" sp sk ep ek] a r
        by simp
    qed
    then have "nearest_tag T C d2 pp = None"
      using nearest_tag_insert [of T C d1 np nk "[?u]"] i by simp
    then show ?thesis using u d by simp
  qed
qed

section \<open>Facts about wrapping and unwrapping\<close>

lemma wrap_text:
  assumes v: "valid_range (doc s) r"
  shows "forest_text (doc (wrap r s)) = forest_text (doc s)"
proof -
  let ?u = "wrapper_path r s" and ?d = "doc (wrap r s)"
  have "forest_text ?d = text_before ?d (butlast ?u, Suc (last ?u)) @ text_after ?d (butlast ?u, Suc (last ?u))"
    using cut_text [OF wrap_facts(4) [OF v]] by (simp add: text_before_def text_after_def)
  also have "\<dots> = text_before (doc s) (snd r) @ text_after (doc s) (snd r)"
    using wrap_facts(6,7,8) [OF v] by simp
  also have "\<dots> = forest_text (doc s)"
    using v cut_text [of "doc s" "fst (snd r)" "snd (snd r)"]
    by (simp add: valid_range_def text_before_def text_after_def split_def)
  finally show ?thesis .
qed

lemma extracted_text:
  assumes v: "valid_range (doc s) r"
  shows "forest_text (extracted r s) = range_text (doc s) r"
  using wrap_facts(8) [OF v] by (simp add: range_text_def) (metis append_eq_conv_conj)

lemma extraction_removes:
  assumes v: "valid_range ns r"
  shows "forest_text (fst (extractContents ns r)) = text_before ns (fst r) @ text_after ns (snd r)"
proof -
  obtain d1 frag b where x: "extractContents ns r = (d1, frag, b)"
    by (metis prod.exhaust)
  have ok: "valid_bp d1 (fst b) (snd b)"
    "text_before d1 b = text_before ns (fst r)"
    "text_after d1 b = text_after ns (snd r)"
    using extractContents_ok [OF v] x by simp_all
  have "forest_text d1 = text_before d1 b @ text_after d1 b"
    using cut_text [OF ok(1)] by (simp add: text_before_def text_after_def)
  then show ?thesis using x ok by simp
qed

lemma range_text_replace:
  assumes "node_at ns w = Some x"
  shows "range_text (replace_at ns w xs) ((butlast w, last w), (butlast w, last w + length xs))
           = forest_text xs"
  using replace_at_ok [OF assms, of xs]
  by (simp add: replace_ok_def Let_def range_text_def text_before_def)

lemma wrap_node:
  assumes "valid_range (doc s) r"
  shows "node_at (doc (wrap r s)) (wrapper_path r s)
           = Some (Elem ''U'' [(''class'', ''cdx-underline'')] (extracted r s))"
proof -
  note f = wrap_facts [OF assms]
  obtain cs where cs: "children_at (doc (wrap r s)) (butlast (wrapper_path r s)) = Some cs"
    "last (wrapper_path r s) < length cs"
    "cs ! last (wrapper_path r s) = Elem ''U'' [(''class'', ''cdx-underline'')] (extracted r s)"
    using f(2) by blast
  show ?thesis
    using node_at_children [OF cs(1,2)] cs(3) f(1) by simp
qed

lemma wrap_selection:
  assumes "valid_range (doc s) r" and "selection s = Some rs"
  shows "selection (wrap r s)
           = Some [((wrapper_path r s, 0), (wrapper_path r s, length (extracted r s)))]"
  using wrap_facts(9) [OF assms(1)] assms(2) by simp

lemma bp_le_same: "a \<le> b \<Longrightarrow> bp_le p a p b"
  by (induction p) simp_all

lemma wrap_unwrap_result:
  assumes v: "valid_range (doc s) r" and sel: "selection s = Some rs"
  defines "u \<equiv> wrapper_path r s"
    and "d \<equiv> replace_at (doc (wrap r s)) (wrapper_path r s) (extracted r s)"
    and "r' \<equiv> ((butlast (wrapper_path r s), last (wrapper_path r s)),
                (butlast (wrapper_path r s), last (wrapper_path r s) + length (extracted r s)))"
  shows "unwrap u (wrap r s) = Inr ((wrap r s)\<lparr>doc := d, selection := Some [r']\<rparr>)"
    and "forest_text d = forest_text (doc s)"
    and "range_text d r' = range_text (doc s) r"
    and "text_before d (fst r') = text_before (doc s) (fst r)"
    and "text_after d (snd r') = text_after (doc s) (snd r)"
    and "valid_range d r'"
    and "nearest_tag T C (doc s) (fst (fst r)) = None \<Longrightarrow> nearest_tag T C d (fst (fst r')) = None"
    and "fst (snd r') = fst (fst r')"
proof -
  let ?s1 = "wrap r s"
  note f = wrap_facts [OF v]
  note n = wrap_node [OF v]
  note ws = wrap_selection [OF v sel]
  have ok: "replace_ok (doc ?s1) (wrapper_path r s) (extracted r s)"
    using n by (rule replace_at_ok)
  show "unwrap u (wrap r s) = Inr ((wrap r s)\<lparr>doc := d, selection := Some [r']\<rparr>)"
    using unwrap_result [OF ws n] by (simp add: u_def d_def r'_def)
  have "forest_text d = forest_text (doc ?s1)"
    unfolding d_def using n by (rule replace_at_text) simp
  then show "forest_text d = forest_text (doc s)"
    using wrap_text [OF v] by simp
  show "range_text d r' = range_text (doc s) r"
    using range_text_replace [OF n, of "extracted r s"] extracted_text [OF v]
    by (simp add: d_def r'_def)
  show "text_before d (fst r') = text_before (doc s) (fst r)"
    using ok f(5) by (simp add: replace_ok_def Let_def d_def r'_def text_before_def)
  show "text_after d (snd r') = text_after (doc s) (snd r)"
    using ok f(7) by (simp add: replace_ok_def Let_def d_def r'_def text_after_def)
  have le: "bp_le p a p b" if "a \<le> b" for p a b
    using that by (induction p) simp_all
  show "valid_range d r'"
    using ok le by (simp add: replace_ok_def Let_def d_def r'_def valid_range_def)
  show "nearest_tag T C d (fst (fst r')) = None" if "nearest_tag T C (doc s) (fst (fst r)) = None"
    using f(10) [OF that] by (simp add: d_def r'_def nearest_tag_replace)
  show "fst (snd r') = fst (fst r')"
    by (simp add: r'_def)
qed

lemma nearest_tag_node:
  "nearest_tag T C ns p = Some w \<Longrightarrow>
   \<exists>as ch. node_at ns w = Some (Elem T as ch) \<and> C \<in> set (classList as)"
proof (induction T C ns p arbitrary: w rule: nearest_tag.induct)
  case (1 T C ns)
  then show ?case by simp
next
  case (2 T C ns i p)
  from 2(2) have i: "i < length ns"
    by (simp split: if_splits)
  from 2(2) i obtain tg as ch where e: "ns ! i = Elem tg as ch"
    by (cases "ns ! i") simp_all
  show ?case
  proof (cases "nearest_tag T C ch p")
    case None
    with 2(2) i e show ?thesis
      by (simp split: if_splits) auto
  next
    case (Some q)
    with 2(2) i e have w: "w = i # q" by simp
    from 2(1) [OF i e Some] obtain as' ch' where
      n: "node_at ch q = Some (Elem T as' ch')" "C \<in> set (classList as')"
      by blast
    from n(1) obtain j q' where "q = j # q'"
      by (cases q) simp_all
    then show ?thesis using w i e n by auto
  qed
qed

lemma findParentTag_single:
  "selection s = Some [r] \<Longrightarrow>
   findParentTag T C s =
     (case nearest_tag T C (doc s) (fst (snd r)) of
        Some w \<Rightarrow> Some w
      | None \<Rightarrow> nearest_tag T C (doc s) (fst (fst r)))"
  by (simp add: findParentTag_def)

lemma findParentTag_node:
  assumes "findParentTag T C s = Some w"
  shows "selection s \<noteq> None \<and> (\<exists>as ch. node_at (doc s) w = Some (Elem T as ch))"
proof -
  from assms obtain r rs where sel: "selection s = Some (r # rs)"
    by (auto simp add: findParentTag_def split: option.splits list.splits)
  with assms have "nearest_tag T C (doc s) (fst (snd r)) = Some w
                 \<or> nearest_tag T C (doc s) (fst (fst r)) = Some w"
    by (auto simp add: findParentTag_def split: option.splits)
  then show ?thesis using sel nearest_tag_node by fastforce
qed

lemma findParentTag_wrap:
  assumes v: "valid_range (doc s) r" and sel: "selection s = Some rs"
  shows "findParentTag tag CSS (wrap r s) = Some (wrapper_path r s)"
proof -
  note f = wrap_facts [OF v]
  obtain cs where cs: "children_at (doc (wrap r s)) (butlast (wrapper_path r s)) = Some cs"
    "last (wrapper_path r s) < length cs"
    "cs ! last (wrapper_path r s) = Elem ''U'' [(''class'', ''cdx-underline'')] (extracted r s)"
    using f(2) by blast
  have "nearest_tag ''U'' ''cdx-underline'' (doc (wrap r s))
          (butlast (wrapper_path r s) @ [last (wrapper_path r s)])
        = Some (butlast (wrapper_path r s) @ [last (wrapper_path r s)])"
    using cs wrapper_class by (rule nearest_tag_wrapper)
  then have "nearest_tag tag CSS (doc (wrap r s)) (wrapper_path r s) = Some (wrapper_path r s)"
    using f(1) by (simp add: tag_def CSS_def)
  then show ?thesis
    using wrap_selection [OF v sel] by (simp add: findParentTag_single)
qed

lemma findParentTag_inside_wrapper:
  assumes v: "valid_range (doc s) r"
  shows "findParentTag tag CSS
           ((wrap r s)\<lparr>selection := Some [((wrapper_path r s @ p, a), (wrapper_path r s @ q, b))]\<rparr>)
         \<noteq> None"
proof -
  note f = wrap_facts [OF v]
  obtain cs where cs: "children_at (doc (wrap r s)) (butlast (wrapper_path r s)) = Some cs"
    "last (wrapper_path r s) < length cs"
    "cs ! last (wrapper_path r s) = Elem ''U'' [(''class'', ''cdx-underline'')] (extracted r s)"
    using f(2) by blast
  have "nearest_tag ''U'' ''cdx-underline'' (doc (wrap r s))
          (butlast (wrapper_path r s) @ last (wrapper_path r s) # q) \<noteq> None"
    using cs wrapper_class by (rule nearest_tag_inside)
  moreover have "butlast (wrapper_path r s) @ last (wrapper_path r s) # q = wrapper_path r s @ q"
    using f(1) by (metis append.assoc append_Cons append_Nil)
  ultimately show ?thesis
    by (auto simp add: findParentTag_def tag_def CSS_def split: option.splits)
qed

lemma unwrap_found:
  assumes "findParentTag T C s = Some w"
  shows "\<exists>s' r'. unwrap w s = Inr s' \<and> selection s' = Some [r'] \<and> valid_range (doc s') r'
           \<and> forest_text (doc s') = forest_text (doc s)"
proof -
  from findParentTag_node [OF assms] obtain rs as ch where
    sel: "selection s = Some rs" and n: "node_at (doc s) w = Some (Elem T as ch)"
    by auto
  have ok: "replace_ok (doc s) w ch"
    using n by (rule replace_at_ok)
  have t: "forest_text (replace_at (doc s) w ch) = forest_text (doc s)"
    using n by (rule replace_at_text) simp
  have "valid_range (replace_at (doc s) w ch)
          ((butlast w, last w), (butlast w, last w + length ch))"
    using ok by (simp add: replace_ok_def Let_def valid_range_def bp_le_same)
  then show ?thesis
    using unwrap_result [OF sel n] t by simp
qed

lemma unwrap_without_selection:
  "selection s = None \<Longrightarrow> unwrap w s = Inr s"
  by (simp add: unwrap_def expandToTag_def Let_def)

lemma checkState_ok:
  "button t = None \<or> token_check (iconActive t) = None \<Longrightarrow>
   checkState t =
     Inr (case button t of
            None \<Rightarrow> t
          | Some b \<Rightarrow>
              t\<lparr>button := Some (b\<lparr>classes :=
                    token_toggle (iconActive t) (findParentTag tag CSS t \<noteq> None) (classes b)\<rparr>)\<rparr>,
          findParentTag tag CSS t \<noteq> None)"
  by (auto simp add: checkState_def Let_def split: option.splits)

lemma checkState_raises:
  "button t = Some b \<Longrightarrow> token_check (iconActive t) = Some e \<Longrightarrow> checkState t = Inl e"
  by (simp add: checkState_def Let_def)

lemma checkState_answer:
  "token_check (iconActive t) = None \<Longrightarrow>
   map_sum id snd (checkState t) = Inr (findParentTag tag CSS t \<noteq> None)"
  by (simp add: checkState_ok)

lemma token_toggle_member: "(t \<in> set (token_toggle t force ts)) = force"
  by (simp add: token_toggle_def token_add_def)

lemma token_toggle_others: "set (token_toggle t force ts) - {t} = set ts - {t}"
  by (auto simp add: token_toggle_def token_add_def)

lemma wrap_iconActive: "iconActive (wrap r s) = iconActive s"
  by (simp add: wrap_def expandToTag_def split_def Let_def split: option.splits node.splits)

lemma npm_valid: "valid_range (doc npm_state) npm_range"
  by code_simp

lemma npm_selection: "selection npm_state = Some [npm_range]"
  by code_simp

lemma npm_unwrapped: "findParentTag tag CSS npm_state = None"
  by code_simp

lemma npm_token: "token_check (iconActive npm_state) = None"
  by code_simp

section \<open>Toggling: C1, C2\<close>

text \<open>
  C1: in every document, for every valid selection that is the live selection,
  \<open>surround\<close> on the selection followed by \<open>surround\<close> on the selection it leaves
  returns normally both times and gives a document with the same text content; and when
  the selection was not inside an underline wrapper before, it is not inside one after,
  and the text selected at the end is the text selected at the start.
\<close>

theorem surround_twice:
  assumes v: "valid_range (doc s) r" and sel: "selection s = Some [r]"
  shows "\<exists>s1 r1 s2. surround (Some r) s = Inr s1
           \<and> selection s1 = Some [r1]
           \<and> surround (Some r1) s1 = Inr s2
           \<and> forest_text (doc s2) = forest_text (doc s)
           \<and> (findParentTag tag CSS s = None \<longrightarrow>
                findParentTag tag CSS s2 = None
                \<and> (\<exists>r2. selection s2 = Some [r2] \<and> range_text (doc s2) r2 = range_text (doc s) r))"
proof (cases "findParentTag tag CSS s")
  case None
  let ?s1 = "wrap r s" and ?u = "wrapper_path r s"
  let ?r1 = "((?u, 0), (?u, length (extracted r s)))"
  note w = wrap_unwrap_result [OF v sel]
  obtain s2 r2 where s2: "unwrap ?u ?s1 = Inr s2" "selection s2 = Some [r2]"
    "doc s2 = replace_at (doc ?s1) ?u (extracted r s)"
    "r2 = ((butlast ?u, last ?u), (butlast ?u, last ?u + length (extracted r s)))"
    using w(1) by simp
  have first: "surround (Some r) s = Inr ?s1"
    using None by (simp add: surround_def)
  have sel1: "selection ?s1 = Some [?r1]"
    using v sel by (rule wrap_selection)
  have second: "surround (Some ?r1) ?s1 = Inr s2"
    using findParentTag_wrap [OF v sel] s2(1) by (simp add: surround_def)
  have same_text: "forest_text (doc s2) = forest_text (doc s)"
    using w(2) s2(3) by simp
  have "nearest_tag tag CSS (doc s) (fst (fst r)) = None"
    using None sel by (simp add: findParentTag_single split: option.splits)
  then have "nearest_tag tag CSS (doc s2) (fst (fst r2)) = None"
    using w(7) s2(3,4) by simp
  then have none: "findParentTag tag CSS s2 = None"
    using s2(2,4) by (simp add: findParentTag_single)
  have rt: "range_text (doc s2) r2 = range_text (doc s) r"
    using w(3) s2(3,4) by simp
  show ?thesis
    using first sel1 second same_text none s2(2) rt by blast
next
  case (Some w)
  from unwrap_found [OF Some] obtain s1 r1 where
    s1: "unwrap w s = Inr s1" "selection s1 = Some [r1]" "valid_range (doc s1) r1"
    "forest_text (doc s1) = forest_text (doc s)"
    by blast
  have first: "surround (Some r) s = Inr s1"
    using Some s1(1) by (simp add: surround_def)
  have "\<exists>s2. surround (Some r1) s1 = Inr s2 \<and> forest_text (doc s2) = forest_text (doc s1)"
  proof (cases "findParentTag tag CSS s1")
    case None
    then show ?thesis
      using wrap_text [OF s1(3)] by (simp add: surround_def)
  next
    case (Some w')
    from unwrap_found [OF Some] show ?thesis
      using Some by (auto simp add: surround_def)
  qed
  then obtain s2 where "surround (Some r1) s1 = Inr s2" "forest_text (doc s2) = forest_text (doc s)"
    using s1(4) by auto
  then show ?thesis
    using first s1(2) Some
    by (rule_tac x = s1 in exI, rule_tac x = r1 in exI, rule_tac x = s2 in exI) simp
qed

text \<open>
  C1 at the scenario of the spec.
\<close>

theorem surround_twice_witness:
  "valid_range (doc npm_state) npm_range
   \<and> selection npm_state = Some [npm_range]
   \<and> findParentTag tag CSS npm_state = None
   \<and> (\<exists>s1 r1 s2. surround (Some npm_range) npm_state = Inr s1
         \<and> selection s1 = Some [r1]
         \<and> surround (Some r1) s1 = Inr s2
         \<and> forest_text (doc s2) = ''npm init command''
         \<and> findParentTag tag CSS s2 = None)"
proof -
  have t: "forest_text (doc npm_state) = ''npm init command''"
    by code_simp
  obtain s1 r1 s2 where x: "surround (Some npm_range) npm_state = Inr s1
      \<and> selection s1 = Some [r1]
      \<and> surround (Some r1) s1 = Inr s2
      \<and> forest_text (doc s2) = forest_text (doc npm_state)
      \<and> (findParentTag tag CSS npm_state = None \<longrightarrow>
           findParentTag tag CSS s2 = None
           \<and> (\<exists>r2. selection s2 = Some [r2]
                  \<and> range_text (doc s2) r2 = range_text (doc npm_state) npm_range))"
    using surround_twice [OF npm_valid npm_selection] by (elim exE) (rule that, assumption)
  have "surround (Some npm_range) npm_state = Inr s1
      \<and> selection s1 = Some [r1]
      \<and> surround (Some r1) s1 = Inr s2
      \<and> forest_text (doc s2) = ''npm init command''
      \<and> findParentTag tag CSS s2 = None"
    using x npm_unwrapped by (simp only: t)
  then show ?thesis
    using npm_valid npm_selection npm_unwrapped by blast
qed

text \<open>
  C2: for every valid range, with a selection object present, \<open>unwrap\<close> on the
  wrapper that \<open>wrap\<close> has inserted returns normally; the text content of the document
  and the text of the selection are what they were before \<open>wrap\<close>, and so is the text
  before and behind the selection: no character is added or removed.
\<close>

theorem wrap_unwrap_roundtrip:
  assumes "valid_range (doc s) r" and "selection s = Some rs"
  shows "\<exists>s' r'. unwrap (wrapper_path r s) (wrap r s) = Inr s'
           \<and> selection s' = Some [r']
           \<and> forest_text (doc s') = forest_text (doc s)
           \<and> range_text (doc s') r' = range_text (doc s) r
           \<and> text_before (doc s') (fst r') = text_before (doc s) (fst r)
           \<and> text_after (doc s') (snd r') = text_after (doc s) (snd r)"
  using wrap_unwrap_result(1-5) [OF assms] by auto

text \<open>
  C2 at the scenario of the spec.
\<close>

theorem wrap_unwrap_roundtrip_witness:
  "valid_range (doc npm_state) npm_range
   \<and> selection npm_state = Some [npm_range]
   \<and> (\<exists>s' r'. unwrap (wrapper_path npm_range npm_state) (wrap npm_range npm_state) = Inr s'
         \<and> selection s' = Some [r']
         \<and> forest_text (doc s') = ''npm init command''
         \<and> range_text (doc s') r' = ''init'')"
proof -
  have t: "forest_text (doc npm_state) = ''npm init command''"
    by code_simp
  have i: "range_text (doc npm_state) npm_range = ''init''"
    by code_simp
  have "\<exists>s' r'. unwrap (wrapper_path npm_range npm_state) (wrap npm_range npm_state) = Inr s'
         \<and> selection s' = Some [r']
         \<and> forest_text (doc s') = ''npm init command''
         \<and> range_text (doc s') r' = ''init''"
    using wrap_unwrap_roundtrip [OF npm_valid npm_selection] by (simp only: t i) blast
  then show ?thesis
    using npm_valid npm_selection by blast
qed

section \<open>Guards and delegation: C3, C4, C5\<close>

text \<open>
  C3: for a range that is not null, \<open>surround\<close> asks \<open>findParentTag\<close> for a wrapper with
  the tag \<open>U\<close> and the class \<open>cdx-underline\<close> and then does exactly what \<open>unwrap\<close> does
  on the wrapper found, or, when none is found, exactly what \<open>wrap\<close> does on the range.
\<close>

theorem surround_delegates:
  "surround (Some r) s =
     (case findParentTag ''U'' ''cdx-underline'' s of
        Some termWrapper \<Rightarrow> unwrap termWrapper s
      | None \<Rightarrow> Inr (wrap r s))"
  by (simp add: surround_def tag_def CSS_def)

text \<open>
  C4: \<open>unwrap\<close> is to be a no-op when the live selection has no range. It is not: for
  a wrapper that is not in the document the host leaves the selection without a range,
  and \<open>getRangeAt(0)\<close> raises \<open>IndexSizeError\<close> before the guard on the range is
  reached. (With no selection object at all the first guard does return, see
  \<open>unwrap_without_selection\<close>.)
\<close>

theorem unwrap_no_range_raises:
  "unwrap [1] (constructor ''ce-inline-tool'' ''ce-inline-tool--active'' ''<svg/>''
                 [Text ''ab''] (Some [(([0], 0), ([0], 1))]))
     = Inl IndexSizeError"
  by code_simp

text \<open>
  C5, as amended: \<open>surround\<close> with a null range returns normally and leaves the whole
  state, the document included, as it was.
\<close>

theorem surround_null_noop:
  "surround None s = Inr s"
  by (simp add: surround_def)

text \<open>
  C5, as stated, fails for a range that is empty but not null: a collapsed range inside
  the text \<open>ab\<close> passes the guard and is wrapped, which puts an empty wrapper into the
  document.
\<close>

theorem surround_collapsed_counterexample:
  "surround (Some (([0], 1), ([0], 1)))
     (constructor ''b'' ''a'' ''i'' [Text ''ab''] (Some [(([0], 1), ([0], 1))]))
   = Inr (constructor ''b'' ''a'' ''i''
            [Text ''a'', Elem ''U'' [(''class'', ''cdx-underline'')] [], Text ''b'']
            (Some [(([1], 0), ([1], 0))]))"
  by code_simp

section \<open>The state check: C6, C10\<close>

text \<open>
  C6: \<open>checkState\<close> raises only when there is a button and \<open>classList.toggle\<close>
  refuses the active class name; otherwise it returns whether \<open>findParentTag\<close> found a
  wrapper with tag \<open>U\<close> and class \<open>cdx-underline\<close>, leaves document and selection alone,
  and leaves the button with the active class present exactly when the answer is true, its
  other classes, type and content unchanged. For a valid live selection that is not inside
  a wrapper: after \<open>wrap\<close> the answer is true, also for any other selection with both
  ends inside the new wrapper, and after \<open>unwrap\<close> of that wrapper it is false.
\<close>

theorem checkState_reports_wrapper:
  "(case checkState t of
      Inl e \<Rightarrow> button t \<noteq> None \<and> token_check (iconActive t) = Some e
    | Inr (t', res) \<Rightarrow>
        res = (findParentTag ''U'' ''cdx-underline'' t \<noteq> None)
        \<and> doc t' = doc t
        \<and> selection t' = selection t
        \<and> (case button t of
             None \<Rightarrow> button t' = None
           | Some b \<Rightarrow>
               (case button t' of
                  None \<Rightarrow> False
                | Some b' \<Rightarrow>
                    (iconActive t \<in> set (classes b')) = res
                    \<and> set (classes b') - {iconActive t} = set (classes b) - {iconActive t}
                    \<and> btype b' = btype b \<and> innerHTML b' = innerHTML b)))
   \<and> (valid_range (doc s) r \<and> selection s = Some [r] \<and> findParentTag tag CSS s = None
        \<and> token_check (iconActive s) = None \<longrightarrow>
        map_sum id snd (checkState (wrap r s)) = Inr True
        \<and> map_sum id snd (checkState ((wrap r s)\<lparr>selection :=
                 Some [((wrapper_path r s @ p, k), (wrapper_path r s @ q, k'))]\<rparr>)) = Inr True
        \<and> (case unwrap (wrapper_path r s) (wrap r s) of
              Inl e \<Rightarrow> False
            | Inr s' \<Rightarrow> map_sum id snd (checkState s') = Inr False))"
proof -
  have a: "(case checkState t of
      Inl e \<Rightarrow> button t \<noteq> None \<and> token_check (iconActive t) = Some e
    | Inr (t', res) \<Rightarrow>
        res = (findParentTag ''U'' ''cdx-underline'' t \<noteq> None)
        \<and> doc t' = doc t
        \<and> selection t' = selection t
        \<and> (case button t of
             None \<Rightarrow> button t' = None
           | Some b \<Rightarrow>
               (case button t' of
                  None \<Rightarrow> False
                | Some b' \<Rightarrow>
                    (iconActive t \<in> set (classes b')) = res
                    \<and> set (classes b') - {iconActive t} = set (classes b) - {iconActive t}
                    \<and> btype b' = btype b \<and> innerHTML b' = innerHTML b)))"
  proof (cases "button t")
    case None
    then show ?thesis
      by (simp add: checkState_ok tag_def CSS_def)
  next
    case (Some b)
    show ?thesis
    proof (cases "token_check (iconActive t)")
      case None
      then show ?thesis using Some
        by (simp add: checkState_ok token_toggle_member token_toggle_others tag_def CSS_def)
    next
      case (Some e)
      then show ?thesis using \<open>button t = Some b\<close>
        by (simp add: checkState_raises)
    qed
  qed
  have d: "map_sum id snd (checkState (wrap r s)) = Inr True
        \<and> map_sum id snd (checkState ((wrap r s)\<lparr>selection :=
                 Some [((wrapper_path r s @ p, k), (wrapper_path r s @ q, k'))]\<rparr>)) = Inr True
        \<and> (case unwrap (wrapper_path r s) (wrap r s) of
              Inl e \<Rightarrow> False
            | Inr s' \<Rightarrow> map_sum id snd (checkState s') = Inr False)"
    if h: "valid_range (doc s) r \<and> selection s = Some [r] \<and> findParentTag tag CSS s = None
             \<and> token_check (iconActive s) = None"
  proof -
    from h have v: "valid_range (doc s) r" and sel: "selection s = Some [r]"
      and none: "findParentTag tag CSS s = None" and tok: "token_check (iconActive s) = None"
      by simp_all
    note w = wrap_unwrap_result [OF v sel]
    have 1: "map_sum id snd (checkState (wrap r s)) = Inr True"
      using findParentTag_wrap [OF v sel] tok by (simp add: checkState_answer wrap_iconActive)
    have 2: "map_sum id snd (checkState ((wrap r s)\<lparr>selection :=
                 Some [((wrapper_path r s @ p, k), (wrapper_path r s @ q, k'))]\<rparr>)) = Inr True"
      using findParentTag_inside_wrapper [OF v] tok
      by (simp add: checkState_answer wrap_iconActive)
    have "nearest_tag tag CSS (doc s) (fst (fst r)) = None"
      using none sel by (simp add: findParentTag_single split: option.splits)
    then have "findParentTag tag CSS
        ((wrap r s)\<lparr>doc := replace_at (doc (wrap r s)) (wrapper_path r s) (extracted r s),
                     selection := Some [((butlast (wrapper_path r s), last (wrapper_path r s)),
                        (butlast (wrapper_path r s),
                         last (wrapper_path r s) + length (extracted r s)))]\<rparr>) = None"
      using w(7) by (simp add: findParentTag_single)
    then have 3: "(case unwrap (wrapper_path r s) (wrap r s) of
              Inl e \<Rightarrow> False
            | Inr s' \<Rightarrow> map_sum id snd (checkState s') = Inr False)"
      using w(1) tok by (simp add: checkState_answer wrap_iconActive)
    show ?thesis
      using 1 2 3 by blast
  qed
  show ?thesis
    using a d by blast
qed

text \<open>
  C6 at the scenario of the spec.
\<close>

theorem checkState_reports_wrapper_witness:
  "valid_range (doc npm_state) npm_range
   \<and> selection npm_state = Some [npm_range]
   \<and> findParentTag tag CSS npm_state = None
   \<and> token_check (iconActive npm_state) = None
   \<and> map_sum id snd (checkState (wrap npm_range npm_state)) = Inr True
   \<and> (case unwrap (wrapper_path npm_range npm_state) (wrap npm_range npm_state) of
         Inl e \<Rightarrow> False
       | Inr s' \<Rightarrow> map_sum id snd (checkState s') = Inr False)"
proof -
  note c = checkState_reports_wrapper [of npm_state npm_state npm_range "[0]" 1 "[0]" 3]
  have h: "valid_range (doc npm_state) npm_range \<and> selection npm_state = Some [npm_range]
             \<and> findParentTag tag CSS npm_state = None
             \<and> token_check (iconActive npm_state) = None"
    using npm_valid npm_selection npm_unwrapped npm_token by simp
  from c have "valid_range (doc npm_state) npm_range \<and> selection npm_state = Some [npm_range]
             \<and> findParentTag tag CSS npm_state = None
             \<and> token_check (iconActive npm_state) = None \<longrightarrow>
        map_sum id snd (checkState (wrap npm_range npm_state)) = Inr True
        \<and> map_sum id snd (checkState ((wrap npm_range npm_state)\<lparr>selection :=
                 Some [((wrapper_path npm_range npm_state @ [0], 1),
                        (wrapper_path npm_range npm_state @ [0], 3))]\<rparr>)) = Inr True
        \<and> (case unwrap (wrapper_path npm_range npm_state) (wrap npm_range npm_state) of
              Inl e \<Rightarrow> False
            | Inr s' \<Rightarrow> map_sum id snd (checkState s') = Inr False)"
    by (rule conjunct2)
  with h show ?thesis
    by blast
qed

text \<open>
  C10: in a state in which \<open>render\<close> has not run, so that there is no button,
  \<open>checkState\<close> returns normally, whatever the class names are, changes nothing and answers
  whether \<open>findParentTag\<close> found a wrapper.
\<close>

theorem checkState_without_button:
  "checkState (s\<lparr>button := None\<rparr>) =
     Inr (s\<lparr>button := None\<rparr>,
          findParentTag ''U'' ''cdx-underline'' (s\<lparr>button := None\<rparr>) \<noteq> None)"
  by (simp add: checkState_def tag_def CSS_def)

section \<open>Markup: C7, C8, C9\<close>

text \<open>
  C7: the sanitizer rule is the one entry \<open>u \<mapsto> {class: cdx-underline}\<close>; sanitizing a
  \<open>u\<close> element under it keeps of its attributes exactly the class attribute with that
  value, and the example of the spec comes out as stated.
\<close>

theorem sanitize_rule:
  \<open>sanitize = [(''u'', [(''class'', ''cdx-underline'')])]
   \<and> clean sanitize (Elem ''U'' as ch)
       = Elem ''U'' (filter (\<lambda>a. a = (''class'', ''cdx-underline'')) as) (map (clean sanitize) ch)
   \<and> serialize (Elem ''U'' [(''class'', ''cdx-underline''), (''onclick'', ''x'')] [Text ''text''])
       = ''<u class="cdx-underline" onclick="x">text</u>''
   \<and> serialize (clean sanitize
         (Elem ''U'' [(''class'', ''cdx-underline''), (''onclick'', ''x'')] [Text ''text'']))
       = ''<u class="cdx-underline">text</u>''\<close>
proof -
  have low: "localName ''U'' = ''u''"
    by code_simp
  have rule: "sanitize = [(''u'', [(''class'', ''cdx-underline'')])]"
    by (simp add: sanitize_def CSS_def)
  have keep: "(map_of [(''class'', ''cdx-underline'')] (fst a) = Some (snd a))
                = (a = (''class'', ''cdx-underline''))" for a :: "string \<times> string"
    by (cases a) auto
  have gen: "clean sanitize (Elem ''U'' as ch)
       = Elem ''U'' (filter (\<lambda>a. a = (''class'', ''cdx-underline'')) as) (map (clean sanitize) ch)"
  proof -
    have "filter (\<lambda>a. map_of [(''class'', ''cdx-underline'')] (fst a) = Some (snd a)) as
            = filter (\<lambda>a. a = (''class'', ''cdx-underline'')) as"
      by (rule filter_cong) (simp_all only: keep)
    then show ?thesis
      by (simp only: clean.simps rule low map_of.simps fst_conv snd_conv fun_upd_same option.case)
  qed
  have before: \<open>serialize (Elem ''U'' [(''class'', ''cdx-underline''), (''onclick'', ''x'')] [Text ''text''])
       = ''<u class="cdx-underline" onclick="x">text</u>''\<close>
    by code_simp
  have after: \<open>serialize (clean sanitize
         (Elem ''U'' [(''class'', ''cdx-underline''), (''onclick'', ''x'')] [Text ''text'']))
       = ''<u class="cdx-underline">text</u>''\<close>
    by code_simp
  show ?thesis
    using rule gen before after by blast
qed

text \<open>
  C8: for a valid range, with a selection object present, \<open>wrap\<close> leaves at the path
  of its new element an element with tag \<open>U\<close> and the one attribute
  \<open>class="cdx-underline"\<close> whose children are the nodes extracted from the range. Their
  text is the text of the range; the extraction took it out of the tree, and the document
  as a whole has the text it had, so the content was moved and not copied. The text before
  the wrapper is the text before the start of the range and the text behind it the text
  behind the end of the range. The selection afterwards is the contents of the wrapper,
  and the wrapper serializes as \<open><u class="cdx-underline">\<close>, its children,
  \<open></u>\<close>.
\<close>

theorem wrap_inserts_wrapper:
  assumes "valid_range (doc s) r" and "selection s = Some rs"
  shows \<open>node_at (doc (wrap r s)) (wrapper_path r s)
           = Some (Elem ''U'' [(''class'', ''cdx-underline'')] (extracted r s))
       \<and> forest_text (extracted r s) = range_text (doc s) r
       \<and> forest_text (fst (extractContents (doc s) r))
           = text_before (doc s) (fst r) @ text_after (doc s) (snd r)
       \<and> forest_text (doc (wrap r s)) = forest_text (doc s)
       \<and> text_before (doc (wrap r s)) (butlast (wrapper_path r s), last (wrapper_path r s))
           = text_before (doc s) (fst r)
       \<and> text_after (doc (wrap r s)) (butlast (wrapper_path r s), Suc (last (wrapper_path r s)))
           = text_after (doc s) (snd r)
       \<and> selection (wrap r s)
           = Some [((wrapper_path r s, 0), (wrapper_path r s, length (extracted r s)))]
       \<and> serialize (Elem ''U'' [(''class'', ''cdx-underline'')] (extracted r s))
           = ''<u class="cdx-underline">'' @ concat (map serialize (extracted r s)) @ ''</u>''\<close>
proof -
  note f = wrap_facts [OF assms(1)]
  note n = wrap_node [OF assms(1)]
  have low: "localName ''U'' = ''u''"
    by code_simp
  have attr: \<open>serialize_attr (''class'', ''cdx-underline'') = '' class="cdx-underline"''\<close>
    by code_simp
  have ser: \<open>serialize (Elem ''U'' [(''class'', ''cdx-underline'')] (extracted r s))
           = ''<u class="cdx-underline">'' @ concat (map serialize (extracted r s)) @ ''</u>''\<close>
    by (simp add: low attr)
  show ?thesis
    using n extracted_text [OF assms(1)] extraction_removes [OF assms(1)] wrap_text [OF assms(1)]
      f(5) f(7) f(9) assms(2) ser
    by simp
qed

text \<open>
  C8 at the scenario of the spec.
\<close>

theorem wrap_inserts_wrapper_witness:
  \<open>valid_range (doc npm_state) npm_range
   \<and> selection npm_state = Some [npm_range]
   \<and> node_at (doc (wrap npm_range npm_state)) (wrapper_path npm_range npm_state)
       = Some (Elem ''U'' [(''class'', ''cdx-underline'')] [Text ''init''])
   \<and> serialize (Elem ''U'' [(''class'', ''cdx-underline'')] [Text ''init''])
       = ''<u class="cdx-underline">init</u>''\<close>
proof -
  have e: "extracted npm_range npm_state = [Text ''init'']"
    by code_simp
  have m: \<open>serialize (Elem ''U'' [(''class'', ''cdx-underline'')] [Text ''init''])
       = ''<u class="cdx-underline">init</u>''\<close>
    by code_simp
  have "node_at (doc (wrap npm_range npm_state)) (wrapper_path npm_range npm_state)
          = Some (Elem ''U'' [(''class'', ''cdx-underline'')] (extracted npm_range npm_state))"
    using wrap_inserts_wrapper [OF npm_valid npm_selection] by (rule conjunct1)
  then have "node_at (doc (wrap npm_range npm_state)) (wrapper_path npm_range npm_state)
          = Some (Elem ''U'' [(''class'', ''cdx-underline'')] [Text ''init''])"
    by (simp only: e)
  then show ?thesis
    using npm_valid npm_selection m by (intro conjI)
qed

text \<open>
  C9: with a selection object present, \<open>unwrap\<close> on a wrapper element of the document
  returns normally; the document is the one in which the wrapper is replaced by its
  children, and the selection is the one range in the wrapper's parent that starts where
  the wrapper was and ends behind the re-inserted children. That range holds exactly these
  children, its text is the text the wrapper had, and the text before and behind it is
  the text that was before and behind the wrapper.
\<close>

theorem unwrap_restores_selection:
  assumes "selection s = Some rs" and "node_at (doc s) w = Some (Elem tg as ch)"
  shows "unwrap w s =
           Inr (s\<lparr>doc := replace_at (doc s) w ch,
                  selection := Some [((butlast w, last w), (butlast w, last w + length ch))]\<rparr>)
       \<and> (case children_at (replace_at (doc s) w ch) (butlast w) of
            None \<Rightarrow> False
          | Some cs \<Rightarrow> take (length ch) (drop (last w) cs) = ch)
       \<and> range_text (replace_at (doc s) w ch)
            ((butlast w, last w), (butlast w, last w + length ch)) = forest_text ch
       \<and> text_before (replace_at (doc s) w ch) (butlast w, last w)
            = text_before (doc s) (butlast w, last w)
       \<and> text_after (replace_at (doc s) w ch) (butlast w, last w + length ch)
            = text_after (doc s) (butlast w, Suc (last w))
       \<and> forest_text (replace_at (doc s) w ch) = forest_text (doc s)"
proof -
  have ok: "replace_ok (doc s) w ch"
    using assms(2) by (rule replace_at_ok)
  have t: "forest_text (replace_at (doc s) w ch) = forest_text (doc s)"
    using assms(2) by (rule replace_at_text) simp
  show ?thesis
    using unwrap_result [OF assms] range_text_replace [OF assms(2), of ch] ok t
    by (simp add: replace_ok_def Let_def text_before_def text_after_def)
qed

text \<open>
  C9 at the scenario of the spec: the wrapper around \<open>init\<close> goes, the selection
  is the re-inserted text node.
\<close>

theorem unwrap_restores_selection_witness:
  "selection npm_wrapped = Some [(([1, 0], 1), ([1, 0], 3))]
   \<and> node_at (doc npm_wrapped) [1]
       = Some (Elem ''U'' [(''class'', ''cdx-underline'')] [Text ''init''])
   \<and> unwrap [1] npm_wrapped
       = Inr (npm_wrapped\<lparr>doc := [Text ''npm '', Text ''init'', Text '' command''],
                             selection := Some [(([], 1), ([], 2))]\<rparr>)"
proof -
  have sel: "selection npm_wrapped = Some [(([1, 0], 1), ([1, 0], 3))]"
    by code_simp
  have n: "node_at (doc npm_wrapped) [1]
       = Some (Elem ''U'' [(''class'', ''cdx-underline'')] [Text ''init''])"
    by code_simp
  have d: "replace_at (doc npm_wrapped) [1] [Text ''init'']
       = [Text ''npm '', Text ''init'', Text '' command'']"
    by code_simp
  have "unwrap [1] npm_wrapped =
           Inr (npm_wrapped\<lparr>doc := replace_at (doc npm_wrapped) [1] [Text ''init''],
                  selection := Some [((butlast [1], last [1]),
                                      (butlast [1], last [1] + length [Text ''init'']))]\<rparr>)"
    using unwrap_restores_selection [OF sel n] by (rule conjunct1)
  then have "unwrap [1] npm_wrapped
       = Inr (npm_wrapped\<lparr>doc := [Text ''npm '', Text ''init'', Text '' command''],
                             selection := Some [(([], 1), ([], 2))]\<rparr>)"
    unfolding d by simp
  then show ?thesis
    using sel n by (intro conjI)
qed

end
